theory Spec2Isabelle
  imports Complex_Main "HOL-Library.Multiset" "HOL-Library.Log_Nat"
begin

section \<open>Data model\<close>

text \<open>
  Timestamps (spike times, sample times, event times, range bounds) are float64
  values, modelled as the real numbers they denote; an array never holds a NaN or an
  infinity.  A 1-d array is a list.  Exceptions are values of the type \<open>error\<close>;
  a function that can raise returns \<open>error + 'a\<close> with \<open>Inl\<close> for the exception.
\<close>

datatype error = AssertionError | IndexError | ValueError string

text \<open>
  An optional float argument tested by truthiness (\<^verbatim>\<open>if reset:\<close>,
  \<^verbatim>\<open>if threshold:\<close>): \<^verbatim>\<open>None\<close> and \<^verbatim>\<open>0.0\<close> are both falsy.
\<close>

definition truthy :: "real option \<Rightarrow> bool" where
  "truthy v = (case v of None \<Rightarrow> False | Some r \<Rightarrow> r \<noteq> 0)"

section \<open>Float64 arithmetic\<close>

text \<open>
  The range eraser and reinstater shift timestamps by a range length, and what they
  return depends on the value of the shifted timestamp.  Their subtractions and
  additions are float64 operations: the exact result, rounded to 53 significant bits, to
  nearest, ties to even.  \<open>exponent x\<close> is the exponent of the largest power of two
  that is at most \<open>\<bar>x\<bar>\<close>.
  Overflow to infinity is outside the model.  The exponent has no lower bound: a sum or
  a difference of two float64 values that falls below the normal range is a float64
  value itself, which the machine and \<open>round64\<close> both return unchanged.
  The distances of the locator and the window bounds of the epoching are written with
  the exact operations: what is stated about them is stated in the code's own
  expressions.
\<close>

definition round_half_even :: "real \<Rightarrow> int" where
  "round_half_even t =
     (let f = \<lfloor>t\<rfloor>; r = t - of_int f
      in if r < 1 / 2 then f else if 1 / 2 < r then f + 1 else if even f then f else f + 1)"

definition exponent :: "real \<Rightarrow> int" where
  "exponent x =
     (if 1 \<le> \<bar>x\<bar> then bitlen \<lfloor>\<bar>x\<bar>\<rfloor> - 1 else - bitlen (\<lceil>1 / \<bar>x\<bar>\<rceil> - 1))"

definition round64 :: "real \<Rightarrow> real" where
  "round64 x =
     (if x = 0 then 0
      else (let u = 2 powi (exponent x - 52) in u * of_int (round_half_even (x / u))))"

definition fsub :: "real \<Rightarrow> real \<Rightarrow> real" where
  "fsub x y = round64 (x - y)"

definition fadd :: "real \<Rightarrow> real \<Rightarrow> real" where
  "fadd x y = round64 (x + y)"

section \<open>Range selector (utils/extract.py)\<close>

text \<open>
  \<^verbatim>\<open>create_mask\<close>: an absent bound is minus or plus infinity, so the comparison on
  that side is always true.
\<close>

definition create_mask :: "real list \<Rightarrow> real option \<Rightarrow> real option \<Rightarrow> bool list" where
  "create_mask data min_value max_value =
     map (\<lambda>x. (case min_value of None \<Rightarrow> True | Some lo \<Rightarrow> lo \<le> x) \<and>
              (case max_value of None \<Rightarrow> True | Some hi \<Rightarrow> x \<le> hi)) data"

text \<open>Boolean-mask indexing \<^verbatim>\<open>data[mask]\<close>.\<close>

definition select_mask :: "'a list \<Rightarrow> bool list \<Rightarrow> 'a list" where
  "select_mask data msk = map fst (filter snd (zip data msk))"

definition get_range ::
  "real list \<Rightarrow> real option \<Rightarrow> real option \<Rightarrow> real option \<Rightarrow> real list" where
  "get_range data min_value max_value reset =
     (let msk = create_mask data min_value max_value;
          data' = select_mask data msk
      in if truthy reset then map (\<lambda>x. fsub x (the reset)) data' else data')"

section \<open>Range eraser (utils/extract.py)\<close>

text \<open>
  The loop of \<^verbatim>\<open>drop_range\<close> over the rows of \<^verbatim>\<open>np.array(time_range, ndmin=2)\<close>.
  A row is a pair (start, stop).  The state threaded through the loop is the current
  spike array and \<^verbatim>\<open>total_len\<close>.  The \<^verbatim>\<open>assert\<close> is the branch \<open>Inl AssertionError\<close>.
\<close>

fun drop_loop ::
  "real list \<Rightarrow> real \<Rightarrow> (real \<times> real) list \<Rightarrow> bool \<Rightarrow> error + real list" where
  "drop_loop spikes total_len [] check_empty = Inr spikes"
| "drop_loop spikes total_len ((t0, t1) # rest) check_empty =
     (let trange = (if total_len > 0 then (fsub t0 total_len, fsub t1 total_len)
                    else (t0, t1))
      in if check_empty \<and>
            get_range spikes (Some (fst trange)) (Some (snd trange)) None \<noteq> []
         then Inl AssertionError
         else
           (let tlen = fsub (snd trange) (fst trange);
                spikes' = get_range spikes None (Some (fst trange)) None @
                          get_range spikes (Some (snd trange)) None (Some tlen)
            in drop_loop spikes' (fadd total_len (fsub (snd trange) (fst trange)))
                 rest check_empty))"

text \<open>
  \<^verbatim>\<open>drop_range\<close>.  A single range \<^verbatim>\<open>[a, b]\<close> is the one-row list \<open>[(a, b)]\<close>.
  For the empty list, \<^verbatim>\<open>np.array([], ndmin=2)\<close> has shape (1, 0): the loop runs once
  with an empty row, so \<^verbatim>\<open>get_range(spikes, *trange)\<close> has no bounds and
  \<^verbatim>\<open>trange[1]\<close> raises IndexError.
\<close>

definition drop_range ::
  "real list \<Rightarrow> (real \<times> real) list \<Rightarrow> bool \<Rightarrow> error + real list" where
  "drop_range spikes time_range check_empty =
     (if time_range = []
      then (if check_empty \<and> get_range spikes None None None \<noteq> []
            then Inl AssertionError else Inl IndexError)
      else drop_loop spikes 0 time_range check_empty)"

text \<open>
  A timestamp moved left by a range length: a length of zero is a falsy
  \<^verbatim>\<open>reset\<close>, and nothing is subtracted.  \<open>shift_back\<close> is a timestamp moved
  left by \<^verbatim>\<open>drop_range\<close> and right again by \<^verbatim>\<open>reinstate_range\<close>.
\<close>

definition shift_left :: "real \<Rightarrow> real \<Rightarrow> real" where
  "shift_left tlen x = (if tlen \<noteq> 0 then fsub x tlen else x)"

definition shift_back :: "real \<Rightarrow> real \<Rightarrow> real" where
  "shift_back tlen x = fadd (shift_left tlen x) tlen"

text \<open>
  The rows that \<^verbatim>\<open>drop_range\<close> visits when nothing is checked, written from the
  description of the operation: each range is moved left by the length dropped so far,
  and the spikes are spliced from everything up to the range start and everything from
  the range end on, shifted left by the range length.  Each entry is the spike array as
  it is when the range is reached, with the adjusted range.
\<close>

fun drop_trace ::
  "real list \<Rightarrow> real \<Rightarrow> (real \<times> real) list \<Rightarrow> (real list \<times> real \<times> real) list" where
  "drop_trace spikes total_len [] = []"
| "drop_trace spikes total_len ((t0, t1) # rest) =
     (let a = (if total_len > 0 then fsub t0 total_len else t0);
          b = (if total_len > 0 then fsub t1 total_len else t1);
          spikes' = filter (\<lambda>x. x \<le> a) spikes @
                    map (shift_left (fsub b a)) (filter (\<lambda>x. b \<le> x) spikes)
      in (spikes, a, b) # drop_trace spikes' (fadd total_len (fsub b a)) rest)"

definition occupied :: "real list \<times> real \<times> real \<Rightarrow> bool" where
  "occupied t = (case t of (spikes, a, b) \<Rightarrow> \<exists>x \<in> set spikes. a \<le> x \<and> x \<le> b)"

section \<open>Arrays of rank 0, 1 and 2\<close>

text \<open>
  Arguments documented as ``1d or 2d array'' have the type \<open>'a array\<close>; a 2-d array
  carries its number of columns, so that a shape (0, n) is represented, and every row
  of a well-formed 2-d array has that length.  Results can also be 0-d
  (\<^verbatim>\<open>np.squeeze\<close> of a single element), which is the type \<open>'a ndarray\<close>.
\<close>

datatype 'a array = Arr1 "'a list" | Arr2 nat "'a list list"

datatype 'a ndarray = Nd0 'a | Nd1 "'a list" | Nd2 nat "'a list list"

text \<open>\<^verbatim>\<open>np.atleast_2d\<close> is a view: the rows and the row width of the same data.\<close>

fun rows_of :: "'a array \<Rightarrow> 'a list list" where
  "rows_of (Arr1 xs) = [xs]"
| "rows_of (Arr2 n rows) = rows"

fun ncols :: "'a array \<Rightarrow> nat" where
  "ncols (Arr1 xs) = length xs"
| "ncols (Arr2 n rows) = n"

text \<open>Writing row \<open>ind\<close> through the 2-d view.\<close>

fun set_row :: "'a array \<Rightarrow> nat \<Rightarrow> 'a list \<Rightarrow> 'a array" where
  "set_row (Arr1 xs) ind row = Arr1 row"
| "set_row (Arr2 n rows) ind row = Arr2 n (rows[ind := row])"

text \<open>\<^verbatim>\<open>np.squeeze\<close> of a 2-d array of shape (length rows, n): axes of size one go.\<close>

definition squeeze :: "nat \<Rightarrow> 'a list list \<Rightarrow> 'a ndarray" where
  "squeeze n rows =
     (if length rows = 1 \<and> n = 1 then Nd0 (hd (hd rows))
      else if length rows = 1 then Nd1 (hd rows)
      else if n = 1 then Nd1 (map hd rows)
      else Nd2 n rows)"

text \<open>The elements of a result in row-major order (\<^verbatim>\<open>ravel\<close>).\<close>

fun ravel :: "'a ndarray \<Rightarrow> 'a list" where
  "ravel (Nd0 x) = [x]"
| "ravel (Nd1 xs) = xs"
| "ravel (Nd2 n rows) = concat rows"

section \<open>Range reinstater (utils/extract.py)\<close>

definition reinstate_range_1d :: "real list \<Rightarrow> real \<times> real \<Rightarrow> real list" where
  "reinstate_range_1d spikes time_range =
     (let tlen = fsub (snd time_range) (fst time_range)
      in get_range spikes None (Some (fst time_range)) None @
         map (\<lambda>x. fadd x tlen) (get_range spikes (Some (fst time_range)) None None))"

text \<open>
  The assignment \<^verbatim>\<open>spikes[ind, :] = new\<close> into a row of width \<open>n\<close>: the value
  must have the row's length, or length one (it is then broadcast along the row);
  otherwise numpy raises ValueError.
\<close>

definition assign_row :: "nat \<Rightarrow> 'a list \<Rightarrow> error + 'a list" where
  "assign_row n new =
     (if length new = n then Inr new
      else if length new = 1 then Inr (replicate n (hd new))
      else Inl (ValueError ''could not broadcast input array''))"

text \<open>The inner loop over the rows, for one range.\<close>

fun reinstate_rows ::
  "nat \<Rightarrow> real list list \<Rightarrow> real \<times> real \<Rightarrow> error + real list list" where
  "reinstate_rows n [] trange = Inr []"
| "reinstate_rows n (spikes_1d # rest) trange =
     (case assign_row n (reinstate_range_1d spikes_1d trange) of
        Inl e \<Rightarrow> Inl e
      | Inr row \<Rightarrow>
          (case reinstate_rows n rest trange of
             Inl e \<Rightarrow> Inl e
           | Inr rest' \<Rightarrow> Inr (row # rest')))"

text \<open>The outer loop over the ranges.\<close>

fun reinstate_loop ::
  "nat \<Rightarrow> real list list \<Rightarrow> (real \<times> real) list \<Rightarrow> error + real list list" where
  "reinstate_loop n rows [] = Inr rows"
| "reinstate_loop n rows (trange # rest) =
     (case reinstate_rows n rows trange of
        Inl e \<Rightarrow> Inl e
      | Inr rows' \<Rightarrow> reinstate_loop n rows' rest)"

text \<open>
  \<^verbatim>\<open>reinstate_range\<close>.  The assertion \<^verbatim>\<open>spikes.ndim < 3\<close> holds for every value of
  the argument type.  For the empty range list the single row of
  \<^verbatim>\<open>np.array([], ndmin=2)\<close> is empty, and \<^verbatim>\<open>time_range[1]\<close> raises IndexError as
  soon as there is a row of spikes to work on.
\<close>

definition reinstate_range ::
  "real array \<Rightarrow> (real \<times> real) list \<Rightarrow> error + real ndarray" where
  "reinstate_range spikes time_range =
     (let n = ncols spikes; rows = rows_of spikes
      in if time_range = []
         then (if rows = [] then Inr (squeeze n rows) else Inl IndexError)
         else (case reinstate_loop n rows time_range of
                 Inl e \<Rightarrow> Inl e
               | Inr rows' \<Rightarrow> Inr (squeeze n rows')))"

section \<open>Nearest-time locator (utils/extract.py)\<close>

text \<open>
  \<^verbatim>\<open>ndarray.argmin\<close>: the first index of the minimum.  It raises ValueError on an
  empty array; the caller below tests for that, and the value here for \<open>[]\<close> is
  never used.
\<close>

fun argmin :: "real list \<Rightarrow> nat" where
  "argmin [] = 0"
| "argmin [x] = 0"
| "argmin (x # y # ys) =
     (let k = argmin (y # ys) in if x \<le> (y # ys) ! k then 0 else Suc k)"

text \<open>
  The argument \<^verbatim>\<open>times\<close> is written \<open>tms\<close>.  The index is a Python int,
  \<open>-1\<close> being the null match.  The threshold is tested by truthiness, as
  \<^verbatim>\<open>reset\<close> is.
\<close>

definition get_ind_by_time :: "real list \<Rightarrow> real \<Rightarrow> real option \<Rightarrow> error + int" where
  "get_ind_by_time tms timepoint threshold =
     (if tms = [] then Inl (ValueError ''attempt to get argmin of an empty sequence'')
      else
        (let ind = argmin (map (\<lambda>t. \<bar>t - timepoint\<bar>) tms)
         in if truthy threshold
            then (if \<bar>tms ! ind - timepoint\<bar> > the threshold
                  then Inr (- 1) else Inr (int ind))
            else Inr (int ind)))"

text \<open>The loop of \<^verbatim>\<open>get_inds_by_times\<close> filling \<^verbatim>\<open>inds\<close>, in query order.\<close>

fun get_inds_loop :: "real list \<Rightarrow> real list \<Rightarrow> real option \<Rightarrow> error + int list" where
  "get_inds_loop tms [] threshold = Inr []"
| "get_inds_loop tms (timepoint # rest) threshold =
     (case get_ind_by_time tms timepoint threshold of
        Inl e \<Rightarrow> Inl e
      | Inr ind \<Rightarrow>
          (case get_inds_loop tms rest threshold of
             Inl e \<Rightarrow> Inl e
           | Inr inds \<Rightarrow> Inr (ind # inds)))"

definition get_inds_by_times ::
  "real list \<Rightarrow> real list \<Rightarrow> real option \<Rightarrow> bool \<Rightarrow> error + int list" where
  "get_inds_by_times tms timepoints threshold drop_null =
     (case get_inds_loop tms timepoints threshold of
        Inl e \<Rightarrow> Inl e
      | Inr inds \<Rightarrow> Inr (if drop_null then filter (\<lambda>i. 0 \<le> i) inds else inds))"

section \<open>Value-by-time resolver (utils/extract.py)\<close>

text \<open>A data value is a float: a number or NaN.\<close>

datatype fval = Fin real | NaN

text \<open>
  \<^verbatim>\<open>take(indices, axis=-1)\<close> in its default mode: an index from \<open>-n\<close> up to
  \<open>n - 1\<close> is accepted for an axis of length \<open>n\<close>, a negative one counting from
  the end; any other index raises IndexError.
\<close>

definition norm_index :: "nat \<Rightarrow> int \<Rightarrow> error + nat" where
  "norm_index n i =
     (if - int n \<le> i \<and> i < int n
      then Inr (nat (if i < 0 then i + int n else i))
      else Inl IndexError)"

fun norm_indices :: "nat \<Rightarrow> int list \<Rightarrow> error + nat list" where
  "norm_indices n [] = Inr []"
| "norm_indices n (i # rest) =
     (case norm_index n i of
        Inl e \<Rightarrow> Inl e
      | Inr k \<Rightarrow>
          (case norm_indices n rest of
             Inl e \<Rightarrow> Inl e
           | Inr ks \<Rightarrow> Inr (k # ks)))"

text \<open>With a scalar index the last axis goes; with an index array it is replaced.\<close>

fun take_scalar :: "'a array \<Rightarrow> int \<Rightarrow> error + 'a ndarray" where
  "take_scalar (Arr1 xs) i =
     (case norm_index (length xs) i of
        Inl e \<Rightarrow> Inl e
      | Inr k \<Rightarrow> Inr (Nd0 (xs ! k)))"
| "take_scalar (Arr2 n rows) i =
     (case norm_index n i of
        Inl e \<Rightarrow> Inl e
      | Inr k \<Rightarrow> Inr (Nd1 (map (\<lambda>r. r ! k) rows)))"

fun take_array :: "'a array \<Rightarrow> int list \<Rightarrow> error + 'a ndarray" where
  "take_array (Arr1 xs) inds =
     (case norm_indices (length xs) inds of
        Inl e \<Rightarrow> Inl e
      | Inr ks \<Rightarrow> Inr (Nd1 (map (\<lambda>k. xs ! k) ks)))"
| "take_array (Arr2 n rows) inds =
     (case norm_indices n inds of
        Inl e \<Rightarrow> Inl e
      | Inr ks \<Rightarrow> Inr (Nd2 (length ks) (map (\<lambda>r. map (\<lambda>k. r ! k) ks) rows)))"

definition get_value_by_time ::
  "real list \<Rightarrow> fval array \<Rightarrow> real \<Rightarrow> real option \<Rightarrow> error + fval ndarray" where
  "get_value_by_time tms values timepoint threshold =
     (case get_ind_by_time tms timepoint threshold of
        Inl e \<Rightarrow> Inl e
      | Inr idx \<Rightarrow> if idx \<ge> 0 then take_scalar values idx else Inr (Nd0 NaN))"

text \<open>
  The branch \<^verbatim>\<open>drop_null=False\<close> of \<^verbatim>\<open>get_values_by_times\<close> writes the taken
  values into the columns of a NaN-filled array whose index is not negative:
  \<open>scatter\<close> is one row of that assignment, and \<open>nd_rows\<close> the rows of the taken
  values (a 1-d result is broadcast to the single row).
\<close>

fun scatter :: "int list \<Rightarrow> fval list \<Rightarrow> fval list" where
  "scatter [] vs = []"
| "scatter (i # rest) vs =
     (if 0 \<le> i
      then (case vs of [] \<Rightarrow> NaN # scatter rest [] | v # vs' \<Rightarrow> v # scatter rest vs')
      else NaN # scatter rest vs)"

fun nd_rows :: "'a ndarray \<Rightarrow> 'a list list" where
  "nd_rows (Nd0 x) = [[x]]"
| "nd_rows (Nd1 xs) = [xs]"
| "nd_rows (Nd2 n rows) = rows"

definition get_values_by_times ::
  "real list \<Rightarrow> fval array \<Rightarrow> real list \<Rightarrow> real option \<Rightarrow> bool \<Rightarrow> error + fval ndarray" where
  "get_values_by_times tms values timepoints threshold drop_null =
     (case get_inds_by_times tms timepoints threshold drop_null of
        Inl e \<Rightarrow> Inl e
      | Inr inds \<Rightarrow>
          if drop_null then take_array values inds
          else
            (case take_array values (filter (\<lambda>i. 0 \<le> i) inds) of
               Inl e \<Rightarrow> Inl e
             | Inr taken \<Rightarrow>
                 Inr (squeeze (length timepoints) (map (scatter inds) (nd_rows taken)))))"

text \<open>The subscript \<^verbatim>\<open>[0]\<close> applied to a result, or to the exception in its place.\<close>

fun subscript0 :: "'a ndarray \<Rightarrow> error + 'a ndarray" where
  "subscript0 (Nd0 x) = Inl IndexError"
| "subscript0 (Nd1 xs) = (case xs of [] \<Rightarrow> Inl IndexError | x # _ \<Rightarrow> Inr (Nd0 x))"
| "subscript0 (Nd2 n rows) = (case rows of [] \<Rightarrow> Inl IndexError | r # _ \<Rightarrow> Inr (Nd1 r))"

definition first_of :: "error + 'a ndarray \<Rightarrow> error + 'a ndarray" where
  "first_of res = (case res of Inl e \<Rightarrow> Inl e | Inr out \<Rightarrow> subscript0 out)"

section \<open>Epoching (utils/trials.py)\<close>



section \<open>Binomial spike trains (sim/dist.py)\<close>

text \<open>
  The probability is a Python float or a 1-d array.  \<^verbatim>\<open>np.random.binomial\<close> draws
  from the process-wide random source, and raises for arguments it rejects: it is the
  parameter \<open>np_binomial\<close>, called with \<^verbatim>\<open>p\<close> and \<^verbatim>\<open>size\<close>.
\<close>

datatype p_spiking = PFloat real | PArray "real list"

fun isinstance_float :: "p_spiking \<Rightarrow> bool" where
  "isinstance_float (PFloat p) = True"
| "isinstance_float (PArray ps) = False"

definition sim_spiketrain_binom ::
  "(p_spiking \<Rightarrow> nat option \<Rightarrow> error + 'r) \<Rightarrow> p_spiking \<Rightarrow> nat option \<Rightarrow> error + 'r" where
  "sim_spiketrain_binom np_binomial p n_samples =
     (if isinstance_float p \<and> n_samples = None
      then Inl (ValueError
        ''Input variable n_samples must be defined if p_spiking is a float'')
      else np_binomial p n_samples)"

section \<open>The caller's array in memory\<close>

text \<open>
  Arrays live in cells of a memory; \<open>next_addr\<close> is the first address not yet
  allocated.  \<^verbatim>\<open>spikes.copy()\<close> allocates a new cell.  Arrays that a function
  builds and never writes to again (the results of \<^verbatim>\<open>get_range\<close> and
  \<^verbatim>\<open>np.hstack\<close>) are values.
\<close>

record memory =
  cells :: "nat \<Rightarrow> real array"
  next_addr :: nat

definition np_copy :: "memory \<Rightarrow> nat \<Rightarrow> nat \<times> memory" where
  "np_copy m a =
     (next_addr m,
      m\<lparr>cells := (cells m)(next_addr m := cells m a), next_addr := Suc (next_addr m)\<rparr>)"

text \<open>
  \<^verbatim>\<open>drop_range\<close> on the array at address \<open>a\<close>: after the copy, the name
  \<^verbatim>\<open>spikes\<close> is rebound to new arrays in every iteration, and no cell is written.
  The masks of \<^verbatim>\<open>get_range\<close> select from a 2-d array in row-major order.
\<close>

fun flat :: "'a array \<Rightarrow> 'a list" where
  "flat (Arr1 xs) = xs"
| "flat (Arr2 n rows) = concat rows"

definition drop_range_mem ::
  "memory \<Rightarrow> nat \<Rightarrow> (real \<times> real) list \<Rightarrow> bool \<Rightarrow> (error + real list) \<times> memory" where
  "drop_range_mem m a time_range check_empty =
     (let (c, m') = np_copy m a
      in (drop_range (flat (cells m' c)) time_range check_empty, m'))"

text \<open>
  \<^verbatim>\<open>reinstate_range\<close> on the array at address \<open>a\<close>.  The 2-d view of the copy
  shares its data, so \<^verbatim>\<open>spikes[ind, :] = ...\<close> writes into the cell \<open>c\<close> of the
  copy.  When a row assignment raises, the rows written before it stay written; the
  memory at that moment is returned with the exception.
\<close>

fun reinstate_rows_mem ::
  "memory \<Rightarrow> nat \<Rightarrow> nat list \<Rightarrow> real \<times> real \<Rightarrow> error option \<times> memory" where
  "reinstate_rows_mem m c [] trange = (None, m)"
| "reinstate_rows_mem m c (ind # rest) trange =
     (let spikes_1d = rows_of (cells m c) ! ind
      in case assign_row (ncols (cells m c)) (reinstate_range_1d spikes_1d trange) of
           Inl e \<Rightarrow> (Some e, m)
         | Inr row \<Rightarrow>
             reinstate_rows_mem
               (m\<lparr>cells := (cells m)(c := set_row (cells m c) ind row)\<rparr>) c rest trange)"

fun reinstate_loop_mem ::
  "memory \<Rightarrow> nat \<Rightarrow> (real \<times> real) list \<Rightarrow> error option \<times> memory" where
  "reinstate_loop_mem m c [] = (None, m)"
| "reinstate_loop_mem m c (trange # rest) =
     (case reinstate_rows_mem m c [0..<length (rows_of (cells m c))] trange of
        (Some e, m') \<Rightarrow> (Some e, m')
      | (None, m') \<Rightarrow> reinstate_loop_mem m' c rest)"

definition reinstate_range_mem ::
  "memory \<Rightarrow> nat \<Rightarrow> (real \<times> real) list \<Rightarrow> (error + real ndarray) \<times> memory" where
  "reinstate_range_mem m a time_range =
     (let (c, m') = np_copy m a
      in if time_range = []
         then (if rows_of (cells m' c) = []
               then (Inr (squeeze (ncols (cells m' c)) (rows_of (cells m' c))), m')
               else (Inl IndexError, m'))
         else (case reinstate_loop_mem m' c time_range of
                 (Some e, m'') \<Rightarrow> (Inl e, m'')
               | (None, m'') \<Rightarrow>
                   (Inr (squeeze (ncols (cells m'' c)) (rows_of (cells m'' c))), m'')))"

section \<open>Float64 rounding\<close>

text \<open>
  The exponent of a value that is not zero is that of its binade.  A rounded result is
  within half a unit in the last place of the exact one, and it is zero only when the
  exact one is.
\<close>

lemma round_half_even_error: "\<bar>of_int (round_half_even t) - t\<bar> \<le> 1 / 2"
proof -
  have "of_int \<lfloor>t\<rfloor> \<le> t" "t < of_int \<lfloor>t\<rfloor> + 1" by linarith+
  then show ?thesis
    by (auto simp: round_half_even_def Let_def)
qed

lemma exponent_le:
  assumes "x \<noteq> 0"
  shows "2 powi exponent x \<le> \<bar>x\<bar>"
proof (cases "1 \<le> \<bar>x\<bar>")
  case True
  let ?n = "\<lfloor>\<bar>x\<bar>\<rfloor>"
  have n: "0 < ?n" using True by linarith
  have b: "0 \<le> bitlen ?n - 1" using n by (auto simp: bitlen_alt_def)
  have "(2::int) ^ nat (bitlen ?n - 1) \<le> ?n" using bitlen_bounds [OF n] ..
  then have "real_of_int (2 ^ nat (bitlen ?n - 1)) \<le> real_of_int ?n" by linarith
  also have "\<dots> \<le> \<bar>x\<bar>" by linarith
  finally have "(2::real) ^ nat (bitlen ?n - 1) \<le> \<bar>x\<bar>" by simp
  then show ?thesis
    using True b by (simp add: exponent_def power_int_def)
next
  case False
  let ?q = "1 / \<bar>x\<bar>"
  let ?m = "\<lceil>?q\<rceil> - 1"
  have x: "0 < \<bar>x\<bar>" "\<bar>x\<bar> < 1" using assms False by auto
  have q: "1 < ?q" using x by simp
  have m: "0 < ?m" using q by linarith
  have "?m < 2 ^ nat (bitlen ?m)" using bitlen_bounds [OF m] ..
  then have "\<lceil>?q\<rceil> \<le> 2 ^ nat (bitlen ?m)" by linarith
  then have "real_of_int \<lceil>?q\<rceil> \<le> real_of_int (2 ^ nat (bitlen ?m))" by linarith
  then have "?q \<le> 2 ^ nat (bitlen ?m)" by (simp add: le_of_int_ceiling order_trans[OF le_of_int_ceiling])
  then have "1 / 2 ^ nat (bitlen ?m) \<le> \<bar>x\<bar>"
    using x(1) by (simp add: field_simps)
  moreover have "(2::real) powi (- bitlen ?m) = 1 / 2 ^ nat (bitlen ?m)"
    using bitlen_nonneg [of ?m] by (simp add: power_int_minus power_int_def field_simps)
  ultimately show ?thesis
    using False by (simp add: exponent_def)
qed

lemma exponent_gt:
  assumes "x \<noteq> 0"
  shows "\<bar>x\<bar> < 2 powi (exponent x + 1)"
proof (cases "1 \<le> \<bar>x\<bar>")
  case True
  let ?n = "\<lfloor>\<bar>x\<bar>\<rfloor>"
  have n: "0 < ?n" using True by linarith
  have b: "0 \<le> bitlen ?n" by (rule bitlen_nonneg)
  have "?n < 2 ^ nat (bitlen ?n)" using bitlen_bounds [OF n] ..
  then have "?n + 1 \<le> 2 ^ nat (bitlen ?n)" by linarith
  then have "real_of_int (?n + 1) \<le> real_of_int (2 ^ nat (bitlen ?n))" by linarith
  then have "real_of_int ?n + 1 \<le> 2 ^ nat (bitlen ?n)" by simp
  moreover have "\<bar>x\<bar> < real_of_int ?n + 1" by linarith
  ultimately have "\<bar>x\<bar> < 2 ^ nat (bitlen ?n)" by linarith
  then show ?thesis
    using True b by (simp add: exponent_def power_int_def)
next
  case False
  let ?q = "1 / \<bar>x\<bar>"
  let ?m = "\<lceil>?q\<rceil> - 1"
  have x: "0 < \<bar>x\<bar>" "\<bar>x\<bar> < 1" using assms False by auto
  have q: "1 < ?q" using x by simp
  have m: "0 < ?m" using q by linarith
  have b: "1 \<le> bitlen ?m" using m by (auto simp: bitlen_alt_def)
  have "(2::int) ^ nat (bitlen ?m - 1) \<le> ?m" using bitlen_bounds [OF m] ..
  then have "real_of_int (2 ^ nat (bitlen ?m - 1)) \<le> real_of_int ?m" by linarith
  moreover have "real_of_int ?m < ?q" by linarith
  ultimately have "2 ^ nat (bitlen ?m - 1) < ?q" by simp
  then have "\<bar>x\<bar> < 1 / 2 ^ nat (bitlen ?m - 1)"
    using x(1) by (simp add: field_simps)
  moreover have "(2::real) powi (- bitlen ?m + 1) = 1 / 2 ^ nat (bitlen ?m - 1)"
  proof -
    have "(2::real) powi (- bitlen ?m + 1) = 2 powi (- (bitlen ?m - 1))" by simp
    also have "\<dots> = 1 / 2 ^ nat (bitlen ?m - 1)"
      using b by (simp only: power_int_minus) (simp add: power_int_def field_simps)
    finally show ?thesis .
  qed
  ultimately show ?thesis
    using False by (simp add: exponent_def)
qed

lemma round64_error: "\<bar>round64 x - x\<bar> \<le> \<bar>x\<bar> / 2 ^ 53"
proof (cases "x = 0")
  case True
  then show ?thesis by (simp add: round64_def)
next
  case False
  define u :: real where "u = 2 powi (exponent x - 52)"
  have u: "0 < u" by (simp add: u_def)
  have r: "round64 x = u * of_int (round_half_even (x / u))"
    using False by (simp add: round64_def u_def Let_def)
  have "\<bar>round64 x - x\<bar> = u * \<bar>of_int (round_half_even (x / u)) - x / u\<bar>"
  proof -
    have "round64 x - x = u * (of_int (round_half_even (x / u)) - x / u)"
      using u by (simp add: r field_simps)
    then show ?thesis using u by (simp add: abs_mult)
  qed
  also have "\<dots> \<le> u * (1 / 2)"
    using u round_half_even_error [of "x / u"] by (intro mult_left_mono) auto
  also have "\<dots> = 2 powi exponent x / 2 ^ 53"
    by (simp add: u_def power_int_diff)
  also have "\<dots> \<le> \<bar>x\<bar> / 2 ^ 53"
    using exponent_le [OF False] by (simp add: divide_right_mono)
  finally show ?thesis .
qed

lemma round64_eq_0_iff: "round64 x = 0 \<longleftrightarrow> x = 0"
proof
  assume "round64 x = 0"
  then have "\<bar>x\<bar> \<le> \<bar>x\<bar> / 2 ^ 53" using round64_error [of x] by simp
  then show "x = 0" by (simp add: field_simps)
next
  assume "x = 0" then show "round64 x = 0" by (simp add: round64_def)
qed

lemma fsub_eq_0_iff: "fsub x y = 0 \<longleftrightarrow> x = y"
  by (simp add: fsub_def round64_eq_0_iff)

section \<open>Basic facts about the range selector\<close>

lemma select_mask_filter:
  "select_mask data (map P data) = filter P data"
  by (induction data) (simp_all add: select_mask_def)

lemma get_range_filter:
  "get_range data min_value max_value None =
     filter (\<lambda>x. (case min_value of None \<Rightarrow> True | Some lo \<Rightarrow> lo \<le> x) \<and>
                 (case max_value of None \<Rightarrow> True | Some hi \<Rightarrow> x \<le> hi)) data"
  by (simp add: get_range_def create_mask_def select_mask_filter truthy_def)

lemma get_range_reset:
  "get_range data min_value max_value (Some r) =
     map (shift_left r) (get_range data min_value max_value None)"
  by (cases "r = 0") (simp_all add: get_range_def truthy_def Let_def shift_left_def [abs_def])

text \<open>
  C3.  A reset value of exactly zero gives the same result as no reset at all: the
  truthiness test \<^verbatim>\<open>if reset:\<close> skips the subtraction for \<^verbatim>\<open>reset=0\<close>.
\<close>

theorem get_range_reset_zero:
  "get_range data min_value max_value (Some 0) = get_range data min_value max_value None"
  by (simp add: get_range_def truthy_def)

section \<open>Dropping ranges\<close>

lemma splice_eq:
  "get_range spikes None (Some a) None @ get_range spikes (Some b) None (Some tlen) =
   filter (\<lambda>x. x \<le> a) spikes @ map (shift_left tlen) (filter (\<lambda>x. b \<le> x) spikes)"
  by (simp add: get_range_reset get_range_filter)

lemma get_range_nonempty:
  "get_range spikes (Some a) (Some b) None \<noteq> [] \<longleftrightarrow> (\<exists>x \<in> set spikes. a \<le> x \<and> x \<le> b)"
  by (auto simp: get_range_filter filter_empty_conv)

lemma drop_loop_unchecked_total:
  "\<exists>out. drop_loop spikes tot rs False = Inr out"
  by (induction spikes tot rs "False" rule: drop_loop.induct) (simp_all add: Let_def)

lemma drop_loop_checked:
  "drop_loop spikes tot rs True =
     (if \<exists>t \<in> set (drop_trace spikes tot rs). occupied t then Inl AssertionError
      else drop_loop spikes tot rs False)"
proof (induction rs arbitrary: spikes tot)
  case Nil
  then show ?case by simp
next
  case (Cons r rest)
  obtain t0 t1 where r: "r = (t0, t1)" by (cases r)
  define a where "a = (if tot > 0 then fsub t0 tot else t0)"
  define b where "b = (if tot > 0 then fsub t1 tot else t1)"
  define spikes' where
    "spikes' = filter (\<lambda>x. x \<le> a) spikes @
               map (shift_left (fsub b a)) (filter (\<lambda>x. b \<le> x) spikes)"
  have tr: "(if tot > 0 then (fsub t0 tot, fsub t1 tot) else (t0, t1)) = (a, b)"
    by (simp add: a_def b_def)
  have step: "drop_loop spikes tot (r # rest) chk =
      (if chk \<and> occupied (spikes, a, b) then Inl AssertionError
       else drop_loop spikes' (fadd tot (fsub b a)) rest chk)" for chk
    unfolding r drop_loop.simps tr Let_def fst_conv snd_conv splice_eq get_range_nonempty
      occupied_def spikes'_def by simp
  have trace: "drop_trace spikes tot (r # rest) =
      (spikes, a, b) # drop_trace spikes' (fadd tot (fsub b a)) rest"
    unfolding r drop_trace.simps Let_def a_def b_def spikes'_def by (rule refl)
  show ?case
    unfolding step trace by (simp add: Cons.IH)
qed

lemma drop_range_single_unchecked:
  "drop_range spikes [(start, stop)] False =
     Inr (filter (\<lambda>x. x \<le> start) spikes @
          map (shift_left (fsub stop start)) (filter (\<lambda>x. stop \<le> x) spikes))"
  by (simp add: drop_range_def splice_eq Let_def)

lemma drop_range_single_checked:
  assumes "\<not> occupied (spikes, start, stop)"
  shows "drop_range spikes [(start, stop)] True =
     Inr (filter (\<lambda>x. x \<le> start) spikes @
          map (shift_left (fsub stop start)) (filter (\<lambda>x. stop \<le> x) spikes))"
proof -
  have "drop_range spikes [(start, stop)] True = drop_loop spikes 0 [(start, stop)] True"
    by (simp add: drop_range_def)
  also have "\<dots> = drop_loop spikes 0 [(start, stop)] False"
    using assms by (simp add: drop_loop_checked)
  also have "\<dots> = drop_range spikes [(start, stop)] False"
    by (simp add: drop_range_def)
  finally show ?thesis
    by (simp only: drop_range_single_unchecked)
qed

lemma mset_splice:
  fixes start stop :: real
  assumes "start < stop"
  shows "mset (filter (\<lambda>x. x \<le> start) spikes @ map g (filter (\<lambda>x. stop \<le> x) spikes)) =
         image_mset (\<lambda>x. if x \<le> start then x else g x)
           (filter_mset (\<lambda>x. \<not> (start < x \<and> x < stop)) (mset spikes))"
proof -
  let ?f = "\<lambda>x. if x \<le> start then x else g x"
  let ?M = "mset spikes"
  have split: "filter_mset (\<lambda>x. \<not> (start < x \<and> x < stop)) ?M =
      filter_mset (\<lambda>x. x \<le> start) ?M + filter_mset (\<lambda>x. stop \<le> x) ?M"
    using assms by (intro multiset_eqI) auto
  have keep: "image_mset ?f (filter_mset (\<lambda>x. x \<le> start) ?M) =
      filter_mset (\<lambda>x. x \<le> start) ?M"
  proof -
    have "image_mset ?f (filter_mset (\<lambda>x. x \<le> start) ?M) =
          image_mset (\<lambda>x. x) (filter_mset (\<lambda>x. x \<le> start) ?M)"
      by (intro image_mset_cong) auto
    then show ?thesis by simp
  qed
  have shift: "image_mset ?f (filter_mset (\<lambda>x. stop \<le> x) ?M) =
      image_mset g (filter_mset (\<lambda>x. stop \<le> x) ?M)"
    using assms by (intro image_mset_cong) auto
  have "mset (filter (\<lambda>x. x \<le> start) spikes @ map g (filter (\<lambda>x. stop \<le> x) spikes)) =
        filter_mset (\<lambda>x. x \<le> start) ?M + image_mset g (filter_mset (\<lambda>x. stop \<le> x) ?M)"
    by simp
  also have "\<dots> = image_mset ?f (filter_mset (\<lambda>x. x \<le> start) ?M) +
                   image_mset ?f (filter_mset (\<lambda>x. stop \<le> x) ?M)"
    by (simp only: keep shift)
  also have "\<dots> = image_mset ?f (filter_mset (\<lambda>x. \<not> (start < x \<and> x < stop)) ?M)"
    by (simp only: split image_mset_union)
  finally show ?thesis .
qed

lemma shift_left_range:
  "start < stop \<Longrightarrow> shift_left (fsub stop start) = (\<lambda>x. fsub x (fsub stop start))"
  by (auto simp: shift_left_def fsub_eq_0_iff)

text \<open>
  C10 (as amended).  With \<^verbatim>\<open>check_empty=False\<close> and a single range, the result is
  the spikes up to and including the start, unchanged, followed by the spikes from the
  stop on (the stop included), moved left by the range length.  For a range with start
  before stop, this is the multiset of the spikes outside the open interval
  (start, stop), each spike above the start replaced by its float64 difference with the
  float64 range length.  A spike equal to the stop lands on the start when the range
  length is computed exactly and the start is a float64 value.
\<close>

theorem drop_range_unchecked_open_interval:
  "drop_range spikes [(start, stop)] False =
     Inr (filter (\<lambda>x. x \<le> start) spikes @
          map (shift_left (fsub stop start)) (filter (\<lambda>x. stop \<le> x) spikes)) \<and>
   (start < stop \<longrightarrow>
      (\<exists>out. drop_range spikes [(start, stop)] False = Inr out \<and>
         mset out =
           image_mset (\<lambda>x. if x \<le> start then x else fsub x (fsub stop start))
             (filter_mset (\<lambda>x. \<not> (start < x \<and> x < stop)) (mset spikes)))) \<and>
   (fsub stop start = stop - start \<and> round64 start = start \<longrightarrow>
      shift_left (fsub stop start) stop = start)"
proof -
  have m: "start < stop \<Longrightarrow>
      mset (filter (\<lambda>x. x \<le> start) spikes @
            map (shift_left (fsub stop start)) (filter (\<lambda>x. stop \<le> x) spikes)) =
      image_mset (\<lambda>x. if x \<le> start then x else fsub x (fsub stop start))
        (filter_mset (\<lambda>x. \<not> (start < x \<and> x < stop)) (mset spikes))"
    by (simp only: shift_left_range mset_splice)
  have e: "fsub stop start = stop - start \<and> round64 start = start \<longrightarrow>
      shift_left (fsub stop start) stop = start"
    by (auto simp: shift_left_def fsub_def)
  show ?thesis
    unfolding drop_range_single_unchecked using m e by blast
qed

theorem drop_range_unchecked_open_interval_witness:
  "(2::real) < 4 \<and> fsub 4 2 = 4 - 2 \<and> round64 2 = 2 \<and>
   drop_range [1, 2, 3, 4, 5] [(2, 4)] False = Inr [1, 2, 2, 3]"
proof -
  have ev: "(2::real) < 4 \<and> fsub 4 2 = 4 - 2 \<and> round64 2 = 2 \<and>
      drop_range [1, 2, 3, 4, 5] [(2, 4)] False = Inr [1, 2, 2, 3]"
    by code_simp
  show ?thesis
    using drop_range_unchecked_open_interval [of "[1, 2, 3, 4, 5]" 2 4] ev by blast
qed

text \<open>
  A spike equal to the stop does not land on the start in general: with the range from
  the float64 value nearest 0.1 to 1, the range length is rounded up, and the spike 1
  lands one unit in the last place below the start.
\<close>

theorem drop_range_stop_off_start_counterexample:
  "drop_range [1] [(3602879701896397 / 36028797018963968, 1)] False =
     Inr [900719925474099 / 9007199254740992] \<and>
   (900719925474099 / 9007199254740992 :: real) < 3602879701896397 / 36028797018963968"
  by code_simp

text \<open>
  C6 (as amended).  For a range list with at least one range, \<^verbatim>\<open>check_empty=True\<close>
  raises the assertion failure exactly when some range, adjusted by the length dropped
  before it, contains a spike of the array as it is when that range is reached;
  otherwise the call returns, with the result of the unchecked call, which always
  returns.
\<close>

theorem drop_range_check_empty:
  assumes "time_range \<noteq> []"
  shows "drop_range spikes time_range True =
           (if \<exists>t \<in> set (drop_trace spikes 0 time_range). occupied t
            then Inl AssertionError
            else drop_range spikes time_range False) \<and>
         (\<exists>out. drop_range spikes time_range False = Inr out)"
  using assms drop_loop_checked [of spikes 0 time_range]
    drop_loop_unchecked_total [of spikes 0 time_range]
  by (simp add: drop_range_def)

theorem drop_range_check_empty_witness:
  "[(2::real, 4::real), (6, 8)] \<noteq> [] \<and>
   drop_range [1, 5, 9] [(2, 4), (6, 8)] True = Inr [1, 3, 5] \<and>
   drop_range [1, 5, 7] [(2, 4), (6, 8)] True = Inl AssertionError"
proof -
  have ev: "[(2::real, 4::real), (6, 8)] \<noteq> [] \<and>
      drop_range [1, 5, 9] [(2, 4), (6, 8)] True = Inr [1, 3, 5] \<and>
      drop_range [1, 5, 7] [(2, 4), (6, 8)] True = Inl AssertionError"
    by code_simp
  show ?thesis
    using drop_range_check_empty [of "[(2, 4), (6, 8)]" "[1, 5, 9]"] ev by blast
qed

text \<open>
  The adjusted ranges and the shifted spikes are float64 values.  With the ranges from
  3.4 to 3.7 and from 6.0 to 7.8 and the spike one unit in the last place above 7.8,
  the first shift rounds the spike to 7.5, which is the adjusted end of the second
  range, and the assertion fails.
\<close>

lemma drop_range_rounded_onto_range:
  "drop_trace [2195504818343117 / 281474976710656] 0
     [(7656119366529843 / 2251799813685248, 4165829655317709 / 1125899906842624),
      (6, 8782019273372467 / 1125899906842624)] =
     [([2195504818343117 / 281474976710656],
       7656119366529843 / 2251799813685248, 4165829655317709 / 1125899906842624),
      ([15 / 2], 1604407367250739 / 281474976710656, 15 / 2)] \<and>
   drop_range [2195504818343117 / 281474976710656]
     [(7656119366529843 / 2251799813685248, 4165829655317709 / 1125899906842624),
      (6, 8782019273372467 / 1125899906842624)] True = Inl AssertionError"
  by code_simp

text \<open>
  For the empty list there is no range to hold a spike, and the call raises all the
  same: the single empty row of \<^verbatim>\<open>np.array([], ndmin=2)\<close> is checked without
  bounds, and indexed.
\<close>

theorem drop_range_empty_list_counterexample:
  "drop_trace [1, 5] 0 [] = [] \<and>
   drop_range [1, 5] [] True = Inl AssertionError \<and>
   drop_range [] [] True = Inl IndexError"
  by code_simp

section \<open>Reinstating ranges\<close>

lemma reinstate_range_1d_filter:
  "reinstate_range_1d spikes (start, stop) =
     filter (\<lambda>x. x \<le> start) spikes @
     map (\<lambda>x. fadd x (fsub stop start)) (filter (\<lambda>x. start \<le> x) spikes)"
  by (simp add: reinstate_range_1d_def get_range_filter)

lemma length_filter_le_ge:
  fixes start :: real
  shows "length (filter (\<lambda>x. x \<le> start) xs) + length (filter (\<lambda>x. start \<le> x) xs) =
         length xs + count_list xs start"
  by (induction xs) auto

lemma length_reinstate_range_1d:
  "length (reinstate_range_1d spikes (start, stop)) = length spikes + count_list spikes start"
  by (simp add: reinstate_range_1d_filter length_filter_le_ge)

lemma count_list_pos: "x \<in> set xs \<Longrightarrow> 0 < count_list xs x"
  by (induction xs) auto

text \<open>
  C9.  When a 1-d spike array holds the start of the range (the first range, when
  several are given), the reinstated row takes that spike twice, once unshifted and
  once shifted: it is longer than the row by the number of spikes equal to the start,
  which is at least one; the row assignment cannot broadcast it, and
  \<^verbatim>\<open>reinstate_range\<close> raises ValueError instead of returning.
\<close>

theorem reinstate_range_start_collision:
  assumes "start \<in> set spikes"
  shows "reinstate_range (Arr1 spikes) ((start, stop) # rest) =
           Inl (ValueError ''could not broadcast input array'') \<and>
         length (reinstate_range_1d spikes (start, stop)) =
           length spikes + count_list spikes start \<and>
         0 < count_list spikes start"
proof -
  have pos: "0 < count_list spikes start"
    using assms by (rule count_list_pos)
  have len: "length (reinstate_range_1d spikes (start, stop)) =
      length spikes + count_list spikes start"
    by (rule length_reinstate_range_1d)
  have ne: "spikes \<noteq> []" using assms by auto
  have "assign_row (length spikes) (reinstate_range_1d spikes (start, stop)) =
      Inl (ValueError ''could not broadcast input array'')"
    using pos ne len by (cases spikes) (simp_all add: assign_row_def)
  then show ?thesis
    using pos len by (simp add: reinstate_range_def)
qed

theorem reinstate_range_start_collision_witness:
  "(2::real) \<in> set [1, 2, 3] \<and>
   reinstate_range (Arr1 [1, 2, 3]) [(2, 4)] = Inl (ValueError ''could not broadcast input array'')"
proof -
  have ev: "(2::real) \<in> set [1, 2, 3] \<and>
      reinstate_range (Arr1 [1, 2, 3]) [(2, 4)] =
        Inl (ValueError ''could not broadcast input array'')"
    by code_simp
  show ?thesis
    using reinstate_range_start_collision [of 2 "[1, 2, 3]" 4 "[]"] ev by blast
qed

lemma roundtrip_1d:
  fixes start stop :: real
  assumes "start \<le> stop" and "\<forall>x \<in> set spikes. \<not> (start \<le> x \<and> x \<le> stop)"
    and "\<forall>x \<in> set spikes. stop < x \<longrightarrow> start < shift_left (fsub stop start) x"
  shows "reinstate_range_1d (filter (\<lambda>x. x \<le> start) spikes @
            map (shift_left (fsub stop start)) (filter (\<lambda>x. stop \<le> x) spikes)) (start, stop) =
         filter (\<lambda>x. x < start) spikes @
         map (shift_back (fsub stop start)) (filter (\<lambda>x. stop < x) spikes)"
proof -
  have a: "filter (\<lambda>x. x \<le> start) spikes = filter (\<lambda>x. x < start) spikes"
    using assms by (intro filter_cong) auto
  have b: "filter (\<lambda>x. stop \<le> x) spikes = filter (\<lambda>x. stop < x) spikes"
    using assms by (intro filter_cong) auto
  let ?L = "filter (\<lambda>x. x < start) spikes"
  let ?R = "filter (\<lambda>x. stop < x) spikes"
  let ?S = "map (shift_left (fsub stop start)) ?R"
  have above: "\<forall>y \<in> set ?S. start < y" using assms(3) by auto
  have L1: "filter (\<lambda>x. x \<le> start) ?L = ?L" by (rule filter_True) auto
  have L2: "filter (\<lambda>x. start \<le> x) ?L = []" by (rule filter_False) auto
  have S1: "filter (\<lambda>x. x \<le> start) ?S = []" using above by (intro filter_False) auto
  have S2: "filter (\<lambda>x. start \<le> x) ?S = ?S" using above by (intro filter_True) auto
  have undo: "map (\<lambda>x. fadd x (fsub stop start)) ?S = map (shift_back (fsub stop start)) ?R"
    by (simp add: shift_back_def)
  have F1: "filter (\<lambda>x. x \<le> start) (?L @ ?S) = ?L"
    by (simp only: filter_append L1 S1 append_Nil2)
  have F2: "filter (\<lambda>x. start \<le> x) (?L @ ?S) = ?S"
    by (simp only: filter_append L2 S2 append_Nil)
  show ?thesis
    unfolding a b by (simp only: reinstate_range_1d_filter F1 F2 undo)
qed

lemma sorted_partition:
  fixes start stop :: real
  assumes "sorted spikes" and "start \<le> stop"
    and "\<forall>x \<in> set spikes. \<not> (start \<le> x \<and> x \<le> stop)"
  shows "filter (\<lambda>x. x < start) spikes @ filter (\<lambda>x. stop < x) spikes = spikes"
  using assms
proof (induction spikes)
  case Nil
  then show ?case by simp
next
  case (Cons x xs)
  show ?case
  proof (cases "x < start")
    case True
    then show ?thesis using Cons by auto
  next
    case False
    then have "\<forall>y \<in> set (x # xs). stop < y" using Cons.prems by fastforce
    then have "filter (\<lambda>y. stop < y) (x # xs) = x # xs"
      and "filter (\<lambda>y. y < start) (x # xs) = []"
      using Cons.prems(2) by (auto simp: filter_empty_conv filter_id_conv)
    then show ?thesis by simp
  qed
qed

lemma ravel_squeeze_single:
  "length row = n \<Longrightarrow> ravel (squeeze n [row]) = row"
  by (cases row) (auto simp: squeeze_def)

lemma shift_back_error:
  "\<bar>shift_back tlen x - x\<bar> \<le> (\<bar>x - tlen\<bar> + \<bar>shift_left tlen x + tlen\<bar>) / 2 ^ 53"
proof -
  let ?y = "shift_left tlen x"
  have r2: "\<bar>shift_back tlen x - (?y + tlen)\<bar> \<le> \<bar>?y + tlen\<bar> / 2 ^ 53"
    unfolding shift_back_def fadd_def by (rule round64_error)
  have r1: "\<bar>?y - (x - tlen)\<bar> \<le> \<bar>x - tlen\<bar> / 2 ^ 53"
  proof (cases "tlen = 0")
    case True
    then show ?thesis by (simp add: shift_left_def)
  next
    case False
    then show ?thesis
      using round64_error [of "x - tlen"] by (simp add: shift_left_def fsub_def)
  qed
  have "\<bar>shift_back tlen x - x\<bar> \<le>
      \<bar>shift_back tlen x - (?y + tlen)\<bar> + \<bar>?y - (x - tlen)\<bar>"
    by linarith
  also have "\<dots> \<le> \<bar>?y + tlen\<bar> / 2 ^ 53 + \<bar>x - tlen\<bar> / 2 ^ 53"
    using r1 r2 by linarith
  finally show ?thesis by (simp add: add_divide_distrib add.commute)
qed

text \<open>
  C1 (as amended).  Take a range with start at most stop that holds no spike, such that
  every spike above the range is still above the start once \<^verbatim>\<open>drop_range\<close> has
  moved it left.  Dropping the range with the emptiness check and reinstating it returns
  an array with the spikes below the range, unchanged, followed by the spikes above it,
  each moved left and right again by the float64 range length.  Such a spike differs
  from the original by at most the two roundings.  The array is 1-d, or 0-d when
  there is one spike (\<^verbatim>\<open>np.squeeze\<close>).  The result has as many elements as
  the input and, up to those roundings, the same multiset of timestamps; when the
  input is sorted it is the input in its order, up to those roundings.
\<close>

theorem drop_reinstate_roundtrip:
  fixes start stop :: real
  assumes "start \<le> stop" and "\<forall>x \<in> set spikes. \<not> (start \<le> x \<and> x \<le> stop)"
    and "\<forall>x \<in> set spikes. stop < x \<longrightarrow> start < shift_left (fsub stop start) x"
  shows "\<exists>dropped out.
           drop_range spikes [(start, stop)] True = Inr dropped \<and>
           reinstate_range (Arr1 dropped) [(start, stop)] = Inr out \<and>
           out = (if length spikes = 1 then Nd0 (hd (ravel out)) else Nd1 (ravel out)) \<and>
           ravel out = filter (\<lambda>x. x < start) spikes @
                       map (shift_back (fsub stop start)) (filter (\<lambda>x. stop < x) spikes) \<and>
           length (ravel out) = length spikes \<and>
           mset (ravel out) =
             image_mset (\<lambda>x. if x < start then x else shift_back (fsub stop start) x)
               (mset spikes) \<and>
           (sorted spikes \<longrightarrow>
              ravel out =
                map (\<lambda>x. if x < start then x else shift_back (fsub stop start) x) spikes) \<and>
           (\<forall>x \<in> set spikes. stop < x \<longrightarrow>
              \<bar>shift_back (fsub stop start) x - x\<bar> \<le>
                (\<bar>x - fsub stop start\<bar> + \<bar>shift_left (fsub stop start) x + fsub stop start\<bar>)
                  / 2 ^ 53)"
proof -
  let ?tlen = "fsub stop start"
  let ?d = "filter (\<lambda>x. x \<le> start) spikes @
            map (shift_left ?tlen) (filter (\<lambda>x. stop \<le> x) spikes)"
  let ?L = "filter (\<lambda>x. x < start) spikes"
  let ?R = "filter (\<lambda>x. stop < x) spikes"
  let ?r = "?L @ map (shift_back ?tlen) ?R"
  let ?g = "\<lambda>x. if x < start then x else shift_back ?tlen x"
  have a: "filter (\<lambda>x. x \<le> start) spikes = ?L"
    using assms by (intro filter_cong) auto
  have b: "filter (\<lambda>x. stop \<le> x) spikes = ?R"
    using assms by (intro filter_cong) auto
  have nocc: "\<not> occupied (spikes, start, stop)"
    using assms(2) by (simp add: occupied_def)
  have drop: "drop_range spikes [(start, stop)] True = Inr ?d"
    using nocc by (rule drop_range_single_checked)
  have r1d: "reinstate_range_1d ?d (start, stop) = ?r"
    using assms by (rule roundtrip_1d)
  have lenr: "length ?r = length spikes"
  proof -
    have "?R = filter (\<lambda>x. \<not> x < start) spikes"
      using assms by (intro filter_cong) auto
    then have "length ?L + length ?R = length spikes"
      using sum_length_filter_compl [of "\<lambda>x. x < start" spikes] by simp
    then show ?thesis by simp
  qed
  have len: "length ?r = length ?d"
    by (simp add: a b)
  define out where "out = squeeze (length ?d) [?r]"
  have "reinstate_rows (length ?d) [?d] (start, stop) = Inr [?r]"
    using len by (simp add: r1d assign_row_def)
  then have re: "reinstate_range (Arr1 ?d) [(start, stop)] = Inr out"
    by (simp add: reinstate_range_def out_def)
  have rav: "ravel out = ?r"
    unfolding out_def using len by (rule ravel_squeeze_single)
  have lo: "length (ravel out) = length spikes"
    unfolding rav by (rule lenr)
  have shape: "out = (if length spikes = 1 then Nd0 (hd (ravel out)) else Nd1 (ravel out))"
    unfolding rav using len lenr by (simp add: out_def squeeze_def)
  have gL: "map ?g ?L = ?L" by (rule map_idI) simp
  have gR: "map ?g ?R = map (shift_back ?tlen) ?R"
    using assms(1) by (intro map_cong) auto
  have ms: "mset (ravel out) = image_mset ?g (mset spikes)"
  proof -
    have "?R = filter (\<lambda>x. \<not> x < start) spikes"
      using assms by (intro filter_cong) auto
    then have "mset spikes = mset ?L + mset ?R"
      by simp
    then have "image_mset ?g (mset spikes) = mset (map ?g ?L) + mset (map ?g ?R)"
      by (simp only: image_mset_union mset_map)
    also have "\<dots> = mset ?r"
      by (simp only: gL gR mset_append)
    finally show ?thesis by (simp only: rav)
  qed
  have srt: "sorted spikes \<longrightarrow> ravel out = map ?g spikes"
  proof
    assume "sorted spikes"
    then have part: "?L @ ?R = spikes"
      using assms(1,2) by (rule sorted_partition)
    have "map ?g spikes = map ?g (?L @ ?R)" by (simp only: part)
    also have "\<dots> = ?r" by (simp only: map_append gL gR)
    finally show "ravel out = map ?g spikes" by (simp only: rav)
  qed
  have tol: "\<forall>x \<in> set spikes. stop < x \<longrightarrow>
      \<bar>shift_back ?tlen x - x\<bar> \<le> (\<bar>x - ?tlen\<bar> + \<bar>shift_left ?tlen x + ?tlen\<bar>) / 2 ^ 53"
    by (intro ballI impI shift_back_error)
  show ?thesis
    using drop re shape rav lo ms srt tol by blast
qed

theorem drop_reinstate_roundtrip_witness:
  "(2::real) \<le> 4 \<and> \<not> (2 \<le> (1::real) \<and> (1::real) \<le> 4) \<and>
   \<not> (2 \<le> (5::real) \<and> (5::real) \<le> 4) \<and> 2 < shift_left (fsub 4 2) 5 \<and>
   drop_range [1, 5] [(2, 4)] True = Inr [1, 3] \<and>
   reinstate_range (Arr1 [1, 3]) [(2, 4)] = Inr (Nd1 [1, 5]) \<and>
   shift_back (fsub 4 2) 5 = 5"
proof -
  have ev: "(2::real) \<le> 4 \<and> \<not> (2 \<le> (1::real) \<and> (1::real) \<le> 4) \<and>
      \<not> (2 \<le> (5::real) \<and> (5::real) \<le> 4) \<and> 2 < shift_left (fsub 4 2) 5 \<and>
      drop_range [1, 5] [(2, 4)] True = Inr [1, 3] \<and>
      reinstate_range (Arr1 [1, 3]) [(2, 4)] = Inr (Nd1 [1, 5]) \<and>
      shift_back (fsub 4 2) 5 = 5"
    by code_simp
  have h: "\<forall>x \<in> set [1, 5 :: real]. \<not> (2 \<le> x \<and> x \<le> 4)"
    "\<forall>x \<in> set [1, 5 :: real]. 4 < x \<longrightarrow> 2 < shift_left (fsub 4 2) x"
    using ev by simp_all
  show ?thesis
    using drop_reinstate_roundtrip [of 2 4 "[1, 5]", OF _ h] ev by blast
qed

text \<open>
  The claim as stated fails in three ways.  The order of an unsorted array is not
  recovered: the spike 5 above the range comes before the spike 1 below it in the
  input, and after it in the result.  A spike just above the stop can be rounded onto
  the start by the shift: the spike one unit in the last place above 1, with the range
  from -3 to 1, is moved to -3, and reinstating raises ValueError.  And it can be
  rounded below the start: the spike one unit in the last place above 1.5, with the
  range from the float64 value nearest -2.9 to 1.5, is moved below the start, and
  comes back unshifted.
\<close>

theorem drop_reinstate_roundtrip_counterexample:
  "drop_range [5, 1] [(2, 4)] True = Inr [1, 3] \<and>
   reinstate_range (Arr1 [1, 3]) [(2, 4)] = Inr (Nd1 [1, 5]) \<and>
   ravel (Nd1 [1, 5 :: real]) \<noteq> [5, 1] \<and>
   drop_range [4503599627370497 / 4503599627370496] [(- 3, 1)] True = Inr [- 3] \<and>
   reinstate_range (Arr1 [- 3]) [(- 3, 1)] =
     Inl (ValueError ''could not broadcast input array'') \<and>
   drop_range [6755399441055745 / 4503599627370496]
     [(- (6530219459687219 / 2251799813685248), 3 / 2)] True =
     Inr [- (1632554864921805 / 562949953421312)] \<and>
   reinstate_range (Arr1 [- (1632554864921805 / 562949953421312)])
     [(- (6530219459687219 / 2251799813685248), 3 / 2)] =
     Inr (Nd0 (- (1632554864921805 / 562949953421312)))"
  by code_simp

section \<open>Nearest-time lookup\<close>

lemma argmin_less: "xs \<noteq> [] \<Longrightarrow> argmin xs < length xs"
  by (induction xs rule: argmin.induct) (auto simp: Let_def)

lemma argmin_le: "x \<in> set xs \<Longrightarrow> xs ! argmin xs \<le> x"
proof (induction xs arbitrary: x rule: argmin.induct)
  case 1
  then show ?case by simp
next
  case (2 y)
  then show ?case by simp
next
  case (3 a b bs)
  let ?k = "argmin (b # bs)"
  show ?case
  proof (cases "a \<le> (b # bs) ! ?k")
    case True
    have "x = a \<or> x \<in> set (b # bs)" using "3.prems" by auto
    then show ?thesis
    proof
      assume "x = a" then show ?thesis using True by (simp add: Let_def)
    next
      assume "x \<in> set (b # bs)"
      then have "(b # bs) ! ?k \<le> x" by (rule "3.IH")
      then show ?thesis using True by (simp add: Let_def)
    qed
  next
    case False
    have "x = a \<or> x \<in> set (b # bs)" using "3.prems" by auto
    then show ?thesis
    proof
      assume "x = a" then show ?thesis using False by (simp add: Let_def)
    next
      assume "x \<in> set (b # bs)"
      then have "(b # bs) ! ?k \<le> x" by (rule "3.IH")
      then show ?thesis using False by (simp add: Let_def)
    qed
  qed
qed

lemma argmin_first: "j < argmin xs \<Longrightarrow> xs ! argmin xs < xs ! j"
proof (induction xs arbitrary: j rule: argmin.induct)
  case 1
  then show ?case by simp
next
  case (2 y)
  then show ?case by simp
next
  case (3 a b bs)
  let ?k = "argmin (b # bs)"
  from "3.prems" have na: "\<not> a \<le> (b # bs) ! ?k" and k: "argmin (a # b # bs) = Suc ?k"
    by (auto simp: Let_def split: if_splits)
  show ?case
  proof (cases j)
    case 0
    then show ?thesis using na k by simp
  next
    case (Suc j')
    then have "j' < ?k" using "3.prems" k by simp
    then have "(b # bs) ! ?k < (b # bs) ! j'" by (rule "3.IH")
    then show ?thesis using k Suc by simp
  qed
qed

lemma nearest_distance:
  assumes "x \<in> set tms"
  shows "\<bar>tms ! argmin (map (\<lambda>t. \<bar>t - tp\<bar>) tms) - tp\<bar> \<le> \<bar>x - tp\<bar>"
proof -
  let ?ds = "map (\<lambda>t. \<bar>t - tp\<bar>) tms"
  have ne: "?ds \<noteq> []" using assms by auto
  have "\<bar>x - tp\<bar> \<in> set ?ds" using assms by auto
  then have "?ds ! argmin ?ds \<le> \<bar>x - tp\<bar>" by (rule argmin_le)
  moreover have "argmin ?ds < length tms" using argmin_less [OF ne] by simp
  ultimately show ?thesis by simp
qed

lemma nearest_in_set:
  assumes "tms \<noteq> []"
  shows "tms ! argmin (map (\<lambda>t. \<bar>t - tp\<bar>) tms) \<in> set tms"
proof -
  have "argmin (map (\<lambda>t. \<bar>t - tp\<bar>) tms) < length tms"
    using argmin_less [of "map (\<lambda>t. \<bar>t - tp\<bar>) tms"] assms by simp
  then show ?thesis by simp
qed

lemma get_ind_by_time_beyond_threshold:
  assumes "0 < t" and "tms \<noteq> []" and "\<forall>x \<in> set tms. t < \<bar>x - tp\<bar>"
  shows "get_ind_by_time tms tp (Some t) = Inr (- 1)"
    and "get_value_by_time tms values tp (Some t) = Inr (Nd0 NaN)"
proof -
  show "get_ind_by_time tms tp (Some t) = Inr (- 1)"
    using assms nearest_in_set [OF assms(2), of tp]
    by (simp add: get_ind_by_time_def truthy_def Let_def)
  then show "get_value_by_time tms values tp (Some t) = Inr (Nd0 NaN)"
    by (simp add: get_value_by_time_def)
qed

text \<open>
  C2.  A threshold of zero is falsy and is skipped like an absent one: with the only
  sample at distance 1 from the timepoint, the index is 0 rather than -1, and the
  value is returned rather than NaN.  (For a positive threshold,
  \<open>get_ind_by_time_beyond_threshold\<close> gives -1 and NaN when every distance, taken
  exactly, exceeds it.)
\<close>

theorem get_ind_by_time_zero_threshold:
  "get_ind_by_time [1] 2 (Some 0) = Inr 0 \<and>
   get_value_by_time [1] (Arr1 [Fin 7]) 2 (Some 0) = Inr (Nd0 (Fin 7))"
  by (simp add: get_ind_by_time_def get_value_by_time_def truthy_def norm_index_def)

section \<open>Batched and scalar lookup\<close>

lemma get_ind_by_time_matched:
  assumes "tms \<noteq> []"
    and "threshold = None \<or> (\<exists>x \<in> set tms. \<bar>x - tp\<bar> \<le> the threshold)"
  shows "get_ind_by_time tms tp threshold = Inr (int (argmin (map (\<lambda>t. \<bar>t - tp\<bar>) tms)))"
proof (cases "truthy threshold")
  case False
  then show ?thesis using assms(1) by (simp add: get_ind_by_time_def Let_def)
next
  case True
  then have "threshold \<noteq> None" by (cases threshold) (simp_all add: truthy_def)
  then obtain x where x: "x \<in> set tms" "\<bar>x - tp\<bar> \<le> the threshold"
    using assms(2) by auto
  have "\<bar>tms ! argmin (map (\<lambda>t. \<bar>t - tp\<bar>) tms) - tp\<bar> \<le> \<bar>x - tp\<bar>"
    using x(1) by (rule nearest_distance)
  then show ?thesis
    using x(2) assms(1) True by (simp add: get_ind_by_time_def Let_def)
qed

lemma batch_scalar_index:
  assumes "get_ind_by_time tms tp threshold = Inr (int k)"
  shows "first_of (get_values_by_times tms (Arr1 vs) [tp] threshold True) =
         get_value_by_time tms (Arr1 vs) tp threshold"
  using assms
  by (simp add: get_values_by_times_def get_inds_by_times_def get_value_by_time_def
      first_of_def norm_index_def)

lemma batch_scalar_error:
  assumes "get_ind_by_time tms tp threshold = Inl e"
  shows "first_of (get_values_by_times tms values [tp] threshold True) =
         get_value_by_time tms values tp threshold"
  using assms
  by (simp add: get_values_by_times_def get_inds_by_times_def get_value_by_time_def
      first_of_def)

lemma get_ind_by_time_empty:
  "get_ind_by_time [] tp threshold = Inl (ValueError ''attempt to get argmin of an empty sequence'')"
  by (simp add: get_ind_by_time_def)

lemma batch_scalar_1d:
  assumes "threshold = None \<or> (\<exists>x \<in> set tms. \<bar>x - tp\<bar> \<le> the threshold)"
  shows "first_of (get_values_by_times tms (Arr1 vs) [tp] threshold True) =
         get_value_by_time tms (Arr1 vs) tp threshold"
proof (cases "tms = []")
  case True
  then show ?thesis
    using get_ind_by_time_empty [of tp threshold] by (simp add: batch_scalar_error)
next
  case False
  then have "get_ind_by_time tms tp threshold = Inr (int (argmin (map (\<lambda>t. \<bar>t - tp\<bar>) tms)))"
    using assms by (rule get_ind_by_time_matched)
  then show ?thesis by (rule batch_scalar_index)
qed

lemma batch_scalar_2d:
  assumes "threshold = None \<or> (\<exists>x \<in> set tms. \<bar>x - tp\<bar> \<le> the threshold)"
  shows "(case get_values_by_times tms (Arr2 n rows) [tp] threshold True of
            Inl e \<Rightarrow> Inl e
          | Inr out \<Rightarrow> Inr (Nd1 (map hd (nd_rows out)))) =
         get_value_by_time tms (Arr2 n rows) tp threshold"
proof (cases "tms = []")
  case True
  then show ?thesis
    by (simp add: get_values_by_times_def get_inds_by_times_def get_value_by_time_def
      get_ind_by_time_empty)
next
  case False
  then have "get_ind_by_time tms tp threshold = Inr (int (argmin (map (\<lambda>t. \<bar>t - tp\<bar>) tms)))"
    using assms by (rule get_ind_by_time_matched)
  then show ?thesis
    by (simp add: get_values_by_times_def get_inds_by_times_def get_value_by_time_def
        norm_index_def o_def)
qed

text \<open>
  C5 (as amended).  With no threshold, or a threshold within which the timepoint
  matches, the batched lookup of a single timepoint in 1-d values, subscripted with
  \<^verbatim>\<open>[0]\<close>, is the scalar lookup, exceptions included.  For 2-d values the
  batched result has one column, whose entries are those of the scalar result.
\<close>

theorem batch_scalar_equivalence:
  assumes "threshold = None \<or> (\<exists>x \<in> set tms. \<bar>x - tp\<bar> \<le> the threshold)"
  shows "first_of (get_values_by_times tms (Arr1 vs) [tp] threshold True) =
           get_value_by_time tms (Arr1 vs) tp threshold \<and>
         (case get_values_by_times tms (Arr2 n rows) [tp] threshold True of
            Inl e \<Rightarrow> Inl e
          | Inr out \<Rightarrow> Inr (Nd1 (map hd (nd_rows out)))) =
           get_value_by_time tms (Arr2 n rows) tp threshold"
  using assms by (simp only: batch_scalar_1d batch_scalar_2d)

theorem batch_scalar_equivalence_witness:
  "(\<exists>x \<in> set [0, 1 :: real]. \<bar>x - 2\<bar> \<le> the (Some 1)) \<and>
   first_of (get_values_by_times [0, 1] (Arr1 [Fin 5, Fin 8]) [2] (Some 1) True) =
     Inr (Nd0 (Fin 8)) \<and>
   get_value_by_time [0, 1] (Arr1 [Fin 5, Fin 8]) 2 (Some 1) = Inr (Nd0 (Fin 8))"
proof -
  have h: "Some (1::real) = None \<or> (\<exists>x \<in> set [0, 1 :: real]. \<bar>x - 2\<bar> \<le> the (Some 1))"
    by simp
  have v: "get_value_by_time [0, 1] (Arr1 [Fin 5, Fin 8]) 2 (Some 1) = Inr (Nd0 (Fin 8))"
    by (simp add: get_value_by_time_def get_ind_by_time_def truthy_def norm_index_def Let_def)
  show ?thesis
    using h v batch_scalar_equivalence [OF h, of "[Fin 5, Fin 8]" 2 "[[Fin 5, Fin 8]]"]
    by simp
qed

text \<open>
  With two rows of values, \<^verbatim>\<open>[0]\<close> of the batched result is its first row, which
  holds one entry, and the scalar result holds one entry per row.
\<close>

theorem batch_scalar_2d_counterexample:
  "first_of (get_values_by_times [0, 1] (Arr2 2 [[Fin 1, Fin 2], [Fin 3, Fin 4]]) [1] None True) =
     Inr (Nd1 [Fin 2]) \<and>
   get_value_by_time [0, 1] (Arr2 2 [[Fin 1, Fin 2], [Fin 3, Fin 4]]) 1 None =
     Inr (Nd1 [Fin 2, Fin 4])"
  by (simp add: get_values_by_times_def get_inds_by_times_def get_value_by_time_def
      get_ind_by_time_def first_of_def norm_index_def truthy_def Let_def)

section \<open>Epochs by event\<close>




text \<open>
  C8.  A float probability without \<^verbatim>\<open>n_samples\<close> raises the ValueError.  With
  \<^verbatim>\<open>n_samples\<close> given, or with an array of probabilities, the function raises
  nothing itself: its outcome is that of the call of \<^verbatim>\<open>np.random.binomial\<close>.
\<close>

theorem sim_spiketrain_binom_validation:
  "sim_spiketrain_binom np_binomial (PFloat p) None =
     Inl (ValueError ''Input variable n_samples must be defined if p_spiking is a float'') \<and>
   sim_spiketrain_binom np_binomial q (Some n) = np_binomial q (Some n) \<and>
   sim_spiketrain_binom np_binomial (PArray ps) m = np_binomial (PArray ps) m"
  by (simp add: sim_spiketrain_binom_def)

section \<open>The caller's array is not written\<close>

lemma np_copy_frame:
  "b < next_addr m \<Longrightarrow> cells (snd (np_copy m a)) b = cells m b"
  by (simp add: np_copy_def)

lemma np_copy_addr: "fst (np_copy m a) = next_addr m"
  by (simp add: np_copy_def)

lemma reinstate_rows_mem_frame:
  "b \<noteq> c \<Longrightarrow> cells (snd (reinstate_rows_mem m c inds trange)) b = cells m b"
proof (induction inds arbitrary: m)
  case Nil
  then show ?case by simp
next
  case (Cons ind rest)
  show ?case
  proof (cases "assign_row (ncols (cells m c)) (reinstate_range_1d (rows_of (cells m c) ! ind) trange)")
    case (Inl e)
    then show ?thesis by simp
  next
    case (Inr row)
    then show ?thesis using Cons by simp
  qed
qed

lemma reinstate_loop_mem_frame:
  "b \<noteq> c \<Longrightarrow> cells (snd (reinstate_loop_mem m c time_range)) b = cells m b"
proof (induction time_range arbitrary: m)
  case Nil
  then show ?case by simp
next
  case (Cons trange rest)
  obtain r m' where step:
    "reinstate_rows_mem m c [0..<length (rows_of (cells m c))] trange = (r, m')"
    by (cases "reinstate_rows_mem m c [0..<length (rows_of (cells m c))] trange")
  have m': "cells m' b = cells m b"
    using reinstate_rows_mem_frame [OF Cons.prems, of m "[0..<length (rows_of (cells m c))]" trange]
    by (simp add: step)
  show ?case
  proof (cases r)
    case None
    then show ?thesis using step m' Cons.IH [OF Cons.prems, of m'] by simp
  next
    case (Some e)
    then show ?thesis using step m' by simp
  qed
qed

text \<open>
  The results of the two functions in memory are those of the functions on values.
\<close>

lemma assign_row_length: "assign_row n new = Inr r \<Longrightarrow> length r = n"
  by (auto simp: assign_row_def split: if_splits)

lemma rows_of_set_row:
  "i < length (rows_of A) \<Longrightarrow> rows_of (set_row A i r) = (rows_of A)[i := r]"
  by (cases A) simp_all

lemma ncols_set_row: "length r = ncols A \<Longrightarrow> ncols (set_row A i r) = ncols A"
  by (cases A) simp_all

lemma reinstate_rows_mem_refines:
  assumes "i \<le> length (rows_of (cells m c))"
  shows "case reinstate_rows (ncols (cells m c)) (drop i (rows_of (cells m c))) trange of
           Inl e \<Rightarrow> fst (reinstate_rows_mem m c [i..<length (rows_of (cells m c))] trange) = Some e
         | Inr rest' \<Rightarrow>
             fst (reinstate_rows_mem m c [i..<length (rows_of (cells m c))] trange) = None \<and>
             rows_of (cells (snd (reinstate_rows_mem m c [i..<length (rows_of (cells m c))] trange)) c) =
               take i (rows_of (cells m c)) @ rest' \<and>
             ncols (cells (snd (reinstate_rows_mem m c [i..<length (rows_of (cells m c))] trange)) c) =
               ncols (cells m c)"
  using assms
proof (induction "length (rows_of (cells m c)) - i" arbitrary: i m)
  case 0
  then show ?case by simp
next
  case (Suc d)
  let ?A = "cells m c"
  let ?rows = "rows_of ?A"
  let ?n = "ncols ?A"
  have i: "i < length ?rows" using Suc.hyps(2) by simp
  have upt: "[i..<length ?rows] = i # [Suc i..<length ?rows]"
    using i by (simp add: upt_conv_Cons)
  have drp: "drop i ?rows = ?rows ! i # drop (Suc i) ?rows"
    using i by (simp add: Cons_nth_drop_Suc)
  show ?case
  proof (cases "assign_row ?n (reinstate_range_1d (?rows ! i) trange)")
    case (Inl e)
    then show ?thesis by (simp add: upt drp)
  next
    case (Inr row)
    define m1 where "m1 = m\<lparr>cells := (cells m)(c := set_row ?A i row)\<rparr>"
    have len: "length row = ?n" using Inr by (rule assign_row_length)
    have rows1: "rows_of (cells m1 c) = ?rows[i := row]"
      using i by (simp add: m1_def rows_of_set_row)
    have n1: "ncols (cells m1 c) = ?n"
      using len by (simp add: m1_def ncols_set_row)
    have l1: "length (rows_of (cells m1 c)) = length ?rows"
      using rows1 by simp
    have d1: "d = length (rows_of (cells m1 c)) - Suc i"
      using Suc.hyps(2) l1 by simp
    have i1: "Suc i \<le> length (rows_of (cells m1 c))"
      using i l1 by simp
    have drop1: "drop (Suc i) (rows_of (cells m1 c)) = drop (Suc i) ?rows"
      using rows1 by simp
    have take1: "take (Suc i) (rows_of (cells m1 c)) = take i ?rows @ [row]"
      using i rows1 by (simp add: take_Suc_conv_app_nth)
    have step: "reinstate_rows_mem m c [i..<length ?rows] trange =
        reinstate_rows_mem m1 c [Suc i..<length (rows_of (cells m1 c))] trange"
      using Inr by (simp only: upt l1) (simp add: Let_def m1_def)
    have pure: "reinstate_rows ?n (drop i ?rows) trange =
        (case reinstate_rows ?n (drop (Suc i) ?rows) trange of
           Inl e \<Rightarrow> Inl e | Inr rest' \<Rightarrow> Inr (row # rest'))"
      using Inr by (simp add: drp)
    note IH = Suc.hyps(1) [OF d1 i1, unfolded n1 drop1 take1]
    show ?thesis
    proof (cases "reinstate_rows ?n (drop (Suc i) ?rows) trange")
      case (Inl e)
      then show ?thesis
        using IH by (simp only: pure step sum.case)
    next
      case rest: (Inr rest')
      then show ?thesis
        using IH by (simp only: pure step sum.case n1) simp
    qed
  qed
qed

lemma reinstate_loop_mem_refines:
  "case reinstate_loop (ncols (cells m c)) (rows_of (cells m c)) time_range of
     Inl e \<Rightarrow> fst (reinstate_loop_mem m c time_range) = Some e
   | Inr rows' \<Rightarrow>
       fst (reinstate_loop_mem m c time_range) = None \<and>
       rows_of (cells (snd (reinstate_loop_mem m c time_range)) c) = rows' \<and>
       ncols (cells (snd (reinstate_loop_mem m c time_range)) c) = ncols (cells m c)"
proof (induction time_range arbitrary: m)
  case Nil
  then show ?case by simp
next
  case (Cons trange rest)
  let ?rows = "rows_of (cells m c)"
  obtain r m' where step: "reinstate_rows_mem m c [0..<length ?rows] trange = (r, m')"
    by (cases "reinstate_rows_mem m c [0..<length ?rows] trange")
  note inner = reinstate_rows_mem_refines [of 0 m c trange]
  show ?case
  proof (cases "reinstate_rows (ncols (cells m c)) ?rows trange")
    case (Inl e)
    then show ?thesis using inner step by simp
  next
    case (Inr rows')
    then have r: "r = None" and rows': "rows_of (cells m' c) = rows'"
      and n': "ncols (cells m' c) = ncols (cells m c)"
      using inner step by simp_all
    show ?thesis
      using Cons.IH [of m'] Inr step r rows' n' by (simp split: sum.splits)
  qed
qed

lemma reinstate_range_mem_refines:
  "fst (reinstate_range_mem m a time_range) = reinstate_range (cells m a) time_range"
proof -
  obtain c m' where cp: "np_copy m a = (c, m')" by (cases "np_copy m a")
  then have same: "cells m' c = cells m a" by (auto simp: np_copy_def)
  show ?thesis
  proof (cases "time_range = []")
    case True
    then show ?thesis by (simp add: reinstate_range_mem_def reinstate_range_def cp same)
  next
    case False
    obtain r m'' where lp: "reinstate_loop_mem m' c time_range = (r, m'')"
      by (cases "reinstate_loop_mem m' c time_range")
    note outer = reinstate_loop_mem_refines [of m' c time_range]
    show ?thesis
    proof (cases "reinstate_loop (ncols (cells m a)) (rows_of (cells m a)) time_range")
      case (Inl e)
      then show ?thesis
        using outer lp False by (simp add: reinstate_range_mem_def reinstate_range_def cp same)
    next
      case (Inr rows')
      then show ?thesis
        using outer lp False by (simp add: reinstate_range_mem_def reinstate_range_def cp same)
    qed
  qed
qed

lemma drop_range_mem_refines:
  "fst (drop_range_mem m a time_range check_empty) =
     drop_range (flat (cells m a)) time_range check_empty"
  by (simp add: drop_range_mem_def np_copy_def)

text \<open>
  C7.  The array at an allocated address \<open>a\<close> holds the same contents after
  \<^verbatim>\<open>drop_range\<close> and after \<^verbatim>\<open>reinstate_range\<close> as before, whether the call
  returns or raises, for every range list: every write goes to the cell of the copy.
\<close>

theorem caller_array_unchanged:
  assumes "a < next_addr m"
  shows "cells (snd (drop_range_mem m a time_range check_empty)) a = cells m a \<and>
         cells (snd (reinstate_range_mem m a time_range)) a = cells m a"
proof -
  obtain c m' where cp: "np_copy m a = (c, m')" by (cases "np_copy m a")
  have c: "c = next_addr m" using np_copy_addr [of m a] cp by simp
  have m': "cells m' a = cells m a" using np_copy_frame [OF assms, of a] cp by simp
  have ac: "a \<noteq> c" using assms c by simp
  have d: "cells (snd (drop_range_mem m a time_range check_empty)) a = cells m a"
    by (simp add: drop_range_mem_def cp m')
  have lp: "cells (snd (reinstate_loop_mem m' c time_range)) a = cells m a"
    using reinstate_loop_mem_frame [OF ac, of m' time_range] m' by simp
  have r: "cells (snd (reinstate_range_mem m a time_range)) a = cells m a"
    using lp m' by (auto simp: reinstate_range_mem_def cp split: prod.splits option.splits)
  show ?thesis using d r by simp
qed

theorem caller_array_unchanged_witness:
  "(0::nat) < next_addr \<lparr>cells = (\<lambda>_. Arr1 [])(0 := Arr1 [1, 2, 3]), next_addr = 1\<rparr> \<and>
   fst (reinstate_range_mem \<lparr>cells = (\<lambda>_. Arr1 [])(0 := Arr1 [1, 2, 3]), next_addr = 1\<rparr> 0
          [(10, 12), (2, 4)]) = Inl (ValueError ''could not broadcast input array'') \<and>
   cells (snd (reinstate_range_mem \<lparr>cells = (\<lambda>_. Arr1 [])(0 := Arr1 [1, 2, 3]), next_addr = 1\<rparr> 0
          [(10, 12), (2, 4)])) 0 = Arr1 [1, 2, 3] \<and>
   cells (snd (drop_range_mem \<lparr>cells = (\<lambda>_. Arr1 [])(0 := Arr1 [1, 2, 3]), next_addr = 1\<rparr> 0
          [(10, 12), (2, 4)] True)) 0 = Arr1 [1, 2, 3]"
proof -
  let ?m = "\<lparr>cells = (\<lambda>_. Arr1 [])(0 := Arr1 [1, 2, 3]), next_addr = 1\<rparr>"
  have h: "(0::nat) < next_addr ?m" by simp
  have raised: "fst (reinstate_range_mem ?m 0 [(10, 12), (2, 4)]) =
      Inl (ValueError ''could not broadcast input array'')"
    by (simp add: reinstate_range_mem_def np_copy_def reinstate_range_1d_def get_range_filter
        assign_row_def Let_def)
  show ?thesis
    using h raised caller_array_unchanged [OF h, of "[(10, 12), (2, 4)]" True] by simp
qed



end
